theory Spec2Isabelle
  imports Main "HOL-Library.Sublist" "HOL-Library.AList"
begin

section \<open>Text primitives of the host language\<close>

text \<open>
  The theme injector (\<^verbatim>\<open>packages/cli/src/utils/theme-injector.ts\<close>) works on JavaScript
  strings. A text is modelled as a \<^typ>\<open>string\<close>; one \<^typ>\<open>char\<close> stands for one code
  unit below 256, so the model covers the stylesheets whose characters lie in that range.
  Among those code units the white space of \<^verbatim>\<open>String.prototype.trim\<close> and of the regular
  expression class \<^verbatim>\<open>\s\<close> is TAB, LF, VT, FF, CR, SPACE and NBSP; the line terminators
  (what \<^verbatim>\<open>.\<close> refuses and what \<^verbatim>\<open>^\<close>/\<^verbatim>\<open>$\<close> look at under the \<^verbatim>\<open>m\<close> flag) are LF and CR.
\<close>

definition isLineTerminator :: "char \<Rightarrow> bool" where
  "isLineTerminator c \<longleftrightarrow> c = CHR 0x0A \<or> c = CHR 0x0D"

definition isWhiteSpace :: "char \<Rightarrow> bool" where
  "isWhiteSpace c \<longleftrightarrow>
     c = CHR 0x09 \<or> c = CHR 0x0A \<or> c = CHR 0x0B \<or> c = CHR 0x0C \<or> c = CHR 0x0D \<or>
     c = CHR 0x20 \<or> c = CHR 0xA0"

text \<open>The class \<^verbatim>\<open>[\w-]\<close>: ASCII letters, digits, underscore and the hyphen.\<close>

definition isNameChar :: "char \<Rightarrow> bool" where
  "isNameChar c \<longleftrightarrow>
     (let n = (of_char c :: nat) in
        (48 \<le> n \<and> n \<le> 57) \<or> (65 \<le> n \<and> n \<le> 90) \<or> (97 \<le> n \<and> n \<le> 122) \<or>
        c = CHR ''_'' \<or> c = CHR ''-'')"

text \<open>\<^verbatim>\<open>s.trim()\<close>: white space removed at both ends.\<close>

definition trim :: "string \<Rightarrow> string" where
  "trim s = rev (dropWhile isWhiteSpace (rev (dropWhile isWhiteSpace s)))"

text \<open>\<^verbatim>\<open>s.split("\n")\<close>: the pieces between line feeds; never an empty array.\<close>

fun split_nl :: "string \<Rightarrow> string list" where
  "split_nl [] = [[]]"
| "split_nl (c # cs) =
     (if c = CHR 0x0A then [] # split_nl cs
      else (case split_nl cs of [] \<Rightarrow> [[c]] | l # ls \<Rightarrow> (c # l) # ls))"

text \<open>\<^verbatim>\<open>parts.join(sep)\<close>.\<close>

fun join :: "string \<Rightarrow> string list \<Rightarrow> string" where
  "join sep [] = []"
| "join sep [x] = x"
| "join sep (x # y # ys) = x @ sep @ join sep (y # ys)"

text \<open>
  \<^verbatim>\<open>content.indexOf(pat, from)\<close>: the least index at or after \<open>from\<close> where \<open>pat\<close> starts,
  \<open>None\<close> for the result -1. The start position is clamped to the length of the text.
\<close>

fun index_in :: "string \<Rightarrow> string \<Rightarrow> nat option" where
  "index_in pat [] = (if pat = [] then Some 0 else None)"
| "index_in pat (c # cs) =
     (if prefix pat (c # cs) then Some 0 else map_option Suc (index_in pat cs))"

definition indexOf :: "string \<Rightarrow> string \<Rightarrow> nat \<Rightarrow> nat option" where
  "indexOf content pat from =
     (let k = min from (length content)
      in map_option (\<lambda>j. k + j) (index_in pat (drop k content)))"

text \<open>\<^verbatim>\<open>content.slice(a, b)\<close> for indices that are not negative.\<close>

definition slice :: "string \<Rightarrow> nat \<Rightarrow> nat \<Rightarrow> string" where
  "slice content a b = take (b - a) (drop a content)"

text \<open>
  \<^verbatim>\<open>s.replace(pat, "")\<close> with a string pattern: the first occurrence of \<open>pat\<close> is removed.
  The empty pattern occurs at index 0 and removing it changes nothing.
\<close>

fun remove_first :: "string \<Rightarrow> string \<Rightarrow> string" where
  "remove_first pat [] = []"
| "remove_first pat (c # cs) =
     (if prefix pat (c # cs) then drop (length pat) (c # cs) else c # remove_first pat cs)"

section \<open>The variable extractor\<close>

text \<open>
  \<^verbatim>\<open>line.replace(/\/\*.*?\*\//g, "")\<close>. At a position that starts with \<^verbatim>\<open>/*\<close> the lazy
  \<^verbatim>\<open>.*?\<close> walks to the first \<^verbatim>\<open>*/\<close> behind it and gives up at a line terminator, which
  \<^verbatim>\<open>.\<close> does not match. \<open>comment_rest t\<close> is what follows that \<^verbatim>\<open>*/\<close> when \<open>t\<close> is the
  text behind the opening \<^verbatim>\<open>/*\<close>. Matches are removed from left to right and the search
  goes on behind each match.
\<close>

fun comment_rest :: "string \<Rightarrow> string option" where
  "comment_rest [] = None"
| "comment_rest [c] = None"
| "comment_rest (c # d # cs) =
     (if c = CHR ''*'' \<and> d = CHR ''/'' then Some cs
      else if isLineTerminator c then None
      else comment_rest (d # cs))"

definition comment_at :: "string \<Rightarrow> string option" where
  "comment_at t =
     (case t of
        c # d # r \<Rightarrow> if c = CHR ''/'' \<and> d = CHR ''*'' then comment_rest r else None
      | _ \<Rightarrow> None)"

lemma comment_rest_shorter: "comment_rest t = Some r \<Longrightarrow> length r < length t"
  by (induction t arbitrary: r rule: comment_rest.induct) (auto split: if_splits)

lemma comment_at_shorter: "comment_at t = Some r \<Longrightarrow> length r < length t"
  by (auto simp: comment_at_def split: list.splits if_splits dest: comment_rest_shorter)

function strip_comments :: "string \<Rightarrow> string" where
  "strip_comments [] = []"
| "strip_comments (c # cs) =
     (case comment_at (c # cs) of
        Some r \<Rightarrow> strip_comments r
      | None \<Rightarrow> c # strip_comments cs)"
  by pat_completeness auto
termination
  by (relation "measure length") (auto dest: comment_at_shorter)

text \<open>
  \<^verbatim>\<open>line.match(/^--([\w-]+):\s*(.+);$/)\<close>, without the \<^verbatim>\<open>m\<close> flag, so \<^verbatim>\<open>^\<close> and \<^verbatim>\<open>$\<close> are the
  ends of the line. After \<^verbatim>\<open>--\<close> the name is the longest run of \<^verbatim>\<open>[\w-]\<close> (it must be
  followed by \<^verbatim>\<open>:\<close>, which is not in the class). The line must end in \<^verbatim>\<open>;\<close>; the text
  \<open>body\<close> between the colon and that last \<^verbatim>\<open>;\<close> is shared by \<^verbatim>\<open>\s*\<close> and \<^verbatim>\<open>(.+)\<close>:
  \<^item> \<^verbatim>\<open>\s*\<close> is greedy and first takes all leading white space; if something is left,
    \<^verbatim>\<open>(.+)\<close> has to match all of it, which works unless it holds a line terminator
    (giving white space back only lengthens what \<^verbatim>\<open>.+\<close> has to cross);
  \<^item> if \<open>body\<close> is white space only, \<^verbatim>\<open>\s*\<close> gives its last character back to
    \<^verbatim>\<open>(.+)\<close>, which works when that character is not a line terminator; a non-empty
    \<open>body\<close> is needed.
  The result is the pair of the groups 1 and 2.
\<close>

definition match_decl :: "string \<Rightarrow> (string \<times> string) option" where
  "match_decl line =
     (case line of
        a # b # r \<Rightarrow>
          if a = CHR ''-'' \<and> b = CHR ''-'' then
            (let name = takeWhile isNameChar r in
             case dropWhile isNameChar r of
               c # r2 \<Rightarrow>
                 if name \<noteq> [] \<and> c = CHR '':'' \<and> r2 \<noteq> [] \<and> last r2 = CHR '';'' then
                   (let body = butlast r2; v = dropWhile isWhiteSpace body in
                    if v \<noteq> [] then
                      (if list_ex isLineTerminator v then None else Some (name, v))
                    else if body \<noteq> [] \<and> \<not> isLineTerminator (last body) then
                      Some (name, [last body])
                    else None)
                 else None
             | [] \<Rightarrow> None)
          else None
      | _ \<Rightarrow> None)"

text \<open>
  A \<^verbatim>\<open>Record<string, string>\<close> is modelled as an association list in the enumeration
  order of \<^verbatim>\<open>Object.entries\<close>: insertion order, an assignment to an existing key keeping
  its place (\<^const>\<open>AList.update\<close>). That is the order of every key that is not an array
  index; the keys written here all start with \<^verbatim>\<open>--\<close>.
\<close>

type_synonym vars = "(string \<times> string) list"

definition set_var :: "vars \<Rightarrow> string \<Rightarrow> vars" where
  "set_var vs line =
     (case match_decl line of
        None \<Rightarrow> vs
      | Some (name, v) \<Rightarrow> AList.update (''--'' @ name) (trim v) vs)"

definition extractVars :: "string \<Rightarrow> vars" where
  "extractVars block =
     foldl set_var [] (map (\<lambda>line. strip_comments (trim line)) (split_nl block))"

section \<open>The block composer\<close>

definition buildBlock :: "string \<Rightarrow> vars \<Rightarrow> string" where
  "buildBlock selector vs =
     selector @ '' {'' @ [CHR 0x0A] @
     join [CHR 0x0A] (map (\<lambda>(key, val). ''  '' @ key @ '': '' @ val @ '';'') vs) @
     [CHR 0x0A] @ ''}''"

section \<open>The block extractor\<close>

text \<open>
  The \<^verbatim>\<open>while\<close> loop of \<^verbatim>\<open>extractBlock\<close>: \<open>i\<close> walks over the text while the brace
  counter is positive; the result is the final value of \<open>i\<close>.
\<close>

function scan :: "string \<Rightarrow> nat \<Rightarrow> int \<Rightarrow> nat" where
  "scan content i braceCount =
     (if i < length content \<and> braceCount > 0 then
        scan content (i + 1)
          (if content ! i = CHR ''{'' then braceCount + 1
           else if content ! i = CHR ''}'' then braceCount - 1
           else braceCount)
      else i)"
  by pat_completeness auto
termination
  by (relation "measure (\<lambda>(content, i, braceCount). length content - i)") auto

declare scan.simps [simp del]

definition extractBlock :: "string \<Rightarrow> string \<Rightarrow> string" where
  "extractBlock content keyword =
     (case indexOf content keyword 0 of
        None \<Rightarrow> []
      | Some startIdx \<Rightarrow>
          (case indexOf content ''{'' startIdx of
             None \<Rightarrow> []
           | Some openIdx \<Rightarrow> slice content startIdx (scan content (openIdx + 1) 1)))"

definition getCoreSection :: "string \<Rightarrow> string \<Rightarrow> string" where
  "getCoreSection template keyword = extractBlock template keyword"

section \<open>The single-block regular expressions\<close>

text \<open>
  \<^verbatim>\<open>ROOT_REGEX = /:root\s*\{([\s\S]*?)\}/m\<close> and \<^verbatim>\<open>DARK_REGEX = /\.dark\s*\{([\s\S]*?)\}/m\<close>
  differ in the selector only. At a position the expression matches when the text there
  is the selector, then white space (all of it: the brace that must follow is no white
  space), then \<^verbatim>\<open>{\<close>, and a \<^verbatim>\<open>}\<close> occurs somewhere behind; the lazy group 1 ends at the
  first one. \<open>block_here\<close> gives the groups 0 and 1 of the match at the start of a text,
  \<open>regex_block\<close> the leftmost match, as \<^verbatim>\<open>String.prototype.match\<close> and
  \<^verbatim>\<open>String.prototype.replace\<close> find it.
\<close>

record regmatch =
  m_index :: nat
  m_whole :: string
  m_group1 :: string

definition block_here :: "string \<Rightarrow> string \<Rightarrow> (string \<times> string) option" where
  "block_here sel t =
     (if prefix sel t then
        (let r = drop (length sel) t; ws = takeWhile isWhiteSpace r in
         case dropWhile isWhiteSpace r of
           c # b \<Rightarrow>
             if c = CHR ''{'' \<and> CHR ''}'' \<in> set b then
               (let g = takeWhile (\<lambda>x. x \<noteq> CHR ''}'') b
                in Some (sel @ ws @ ''{'' @ g @ ''}'', g))
             else None
         | [] \<Rightarrow> None)
      else None)"

fun regex_block :: "string \<Rightarrow> string \<Rightarrow> regmatch option" where
  "regex_block sel [] = None"
| "regex_block sel (c # cs) =
     (case block_here sel (c # cs) of
        Some (w, g) \<Rightarrow> Some \<lparr>m_index = 0, m_whole = w, m_group1 = g\<rparr>
      | None \<Rightarrow> map_option (\<lambda>m. m\<lparr>m_index := Suc (m_index m)\<rparr>) (regex_block sel cs))"

definition ROOT_REGEX :: "string \<Rightarrow> regmatch option" where
  "ROOT_REGEX = regex_block '':root''"

definition DARK_REGEX :: "string \<Rightarrow> regmatch option" where
  "DARK_REGEX = regex_block ''.dark''"

text \<open>\<^verbatim>\<open>(text.match(RE) || [])[1] || ""\<close>\<close>

definition group1_or_empty :: "regmatch option \<Rightarrow> string" where
  "group1_or_empty r = (case r of None \<Rightarrow> [] | Some m \<Rightarrow> m_group1 m)"

text \<open>\<^verbatim>\<open>text.replace(RE, "")\<close> for an expression without the \<^verbatim>\<open>g\<close> flag.\<close>

definition regex_remove :: "(string \<Rightarrow> regmatch option) \<Rightarrow> string \<Rightarrow> string" where
  "regex_remove re text =
     (case re text of
        None \<Rightarrow> text
      | Some m \<Rightarrow> take (m_index m) text @ drop (m_index m + length (m_whole m)) text)"

section \<open>Import lines\<close>

definition REQUIRED_IMPORTS :: "string list" where
  \<open>REQUIRED_IMPORTS = [''@import "tailwindcss";'', ''@import "tw-animate-css";'']\<close>

text \<open>
  \<^verbatim>\<open>IMPORT_REGEX = /^@import\s+.*?;$/gm\<close>. With the \<^verbatim>\<open>m\<close> flag \<^verbatim>\<open>^\<close> holds at the start of
  the text and behind a line terminator, \<^verbatim>\<open>$\<close> at the end of the text and before a line
  terminator. After \<^verbatim>\<open>@import\<close> the greedy \<^verbatim>\<open>\s+\<close> takes a non-empty run of white space
  (line terminators included); the lazy \<^verbatim>\<open>.*?;\<close> stays on one line and must end before
  a line terminator or the end of the text, so the rest \<open>seg\<close> of that line must be
  non-empty and end in \<^verbatim>\<open>;\<close>, and the match ends with it. Giving white space back does
  not help: the rest of the line would be the same, or white space only.
  \<open>import_here t\<close> is the text behind the match that starts \<open>t\<close>.
\<close>

definition import_here :: "string \<Rightarrow> string option" where
  "import_here t =
     (if prefix ''@import'' t then
        (let r = drop 7 t; q = dropWhile isWhiteSpace r;
             seg = takeWhile (\<lambda>c. \<not> isLineTerminator c) q
         in if r \<noteq> [] \<and> isWhiteSpace (hd r) \<and> seg \<noteq> [] \<and> last seg = CHR '';''
            then Some (dropWhile (\<lambda>c. \<not> isLineTerminator c) q)
            else None)
      else None)"

lemma import_here_shorter: "import_here t = Some r \<Longrightarrow> length r < length t"
proof -
  assume a: "import_here t = Some r"
  then have p: "prefix ''@import'' t"
    by (auto simp: import_here_def split: if_splits)
  from a have "r = dropWhile (\<lambda>c. \<not> isLineTerminator c) (dropWhile isWhiteSpace (drop 7 t))"
    by (auto simp: import_here_def Let_def split: if_splits)
  then have "length r \<le> length (drop 7 t)"
    by (metis (no_types, lifting) length_dropWhile_le order_trans)
  moreover from p have "7 \<le> length t"
    by (auto simp: prefix_def)
  ultimately show ?thesis by simp
qed

text \<open>
  \<^verbatim>\<open>content.replace(IMPORT_REGEX, "")\<close>: every match is removed. The flag \<open>bol\<close> says
  whether \<^verbatim>\<open>^\<close> holds at the current position. Behind a match the previous character
  is \<^verbatim>\<open>;\<close>, so \<^verbatim>\<open>^\<close> does not hold there.
\<close>

function strip_imports :: "bool \<Rightarrow> string \<Rightarrow> string" where
  "strip_imports bol [] = []"
| "strip_imports bol (c # cs) =
     (case (if bol then import_here (c # cs) else None) of
        Some r \<Rightarrow> strip_imports False r
      | None \<Rightarrow> c # strip_imports (isLineTerminator c) cs)"
  by pat_completeness auto
termination
  by (relation "measure (\<lambda>(bol, t). length t)") (auto dest: import_here_shorter split: if_splits)

text \<open>Step 1 of \<^verbatim>\<open>injectclyroTheme\<close>: the import list.\<close>

definition importLines :: "string \<Rightarrow> string list" where
  "importLines cssContent =
     foldl (\<lambda>ls req. if req \<in> set ls then ls else ls @ [req])
       (map trim (filter (\<lambda>line. prefix ''@import'' (trim line)) (split_nl cssContent)))
       REQUIRED_IMPORTS"

definition workingContent :: "string \<Rightarrow> string" where
  "workingContent cssContent = trim (strip_imports True cssContent)"

section \<open>The stylesheet assembler\<close>

text \<open>
  The template \<^verbatim>\<open>clyro_REACT_THEME_BLOCK\<close> is imported from
  \<^verbatim>\<open>constants/theme-template.js\<close>; every function that reads it takes it as the
  parameter \<open>template\<close>.
\<close>

definition coreRootVars :: "string \<Rightarrow> vars" where
  "coreRootVars template = extractVars (group1_or_empty (ROOT_REGEX template))"

definition coreDarkVars :: "string \<Rightarrow> vars" where
  "coreDarkVars template = extractVars (group1_or_empty (DARK_REGEX template))"

definition userRootVars :: "string \<Rightarrow> vars" where
  "userRootVars working = extractVars (group1_or_empty (ROOT_REGEX working))"

definition userDarkVars :: "string \<Rightarrow> vars" where
  "userDarkVars working = extractVars (group1_or_empty (DARK_REGEX working))"

text \<open>
  The object spread \<^verbatim>\<open>{ ...core, ...user }\<close>: the properties of \<open>core\<close> are copied in
  order, then each property of \<open>user\<close> is assigned in order.
\<close>

definition mergeVars :: "vars \<Rightarrow> vars \<Rightarrow> vars" where
  "mergeVars core user = foldl (\<lambda>acc (key, val). AList.update key val acc) core user"

text \<open>
  Step 5. Both \<^verbatim>\<open>extractBlock\<close> calls read the working text as it was before the step:
  the variable is assigned only after the whole chain has run.
\<close>

definition stripSections :: "string \<Rightarrow> string" where
  "stripSections working =
     trim
       (remove_first (extractBlock working ''@layer base'')
          (remove_first (extractBlock working ''@theme inline'')
             (regex_remove DARK_REGEX (regex_remove ROOT_REGEX working))))"

text \<open>\<^verbatim>\<open>parts.filter(Boolean).join("\n\n")\<close>: the empty strings are dropped.\<close>

definition join_sections :: "string list \<Rightarrow> string" where
  "join_sections parts = join [CHR 0x0A, CHR 0x0A] (filter (\<lambda>p. p \<noteq> []) parts)"

definition clyroBlock :: "string \<Rightarrow> string \<Rightarrow> string" where
  "clyroBlock template working =
     join_sections
       [getCoreSection template ''@theme inline'',
        [],
        buildBlock '':root'' (mergeVars (coreRootVars template) (userRootVars working)),
        [],
        buildBlock ''.dark'' (mergeVars (coreDarkVars template) (userDarkVars working)),
        [],
        getCoreSection template ''@layer base'']"

text \<open>The text that \<^verbatim>\<open>injectclyroTheme\<close> writes for a file with the content \<open>cssContent\<close>.\<close>

definition finalCss :: "string \<Rightarrow> string \<Rightarrow> string" where
  "finalCss template cssContent =
     (let working = workingContent cssContent
      in trim
           (join_sections
              [join [CHR 0x0A] (importLines cssContent),
               [],
               clyroBlock template working,
               [],
               stripSections working]) @ [CHR 0x0A])"

text \<open>
  The file system is a map from paths to entries; \<^verbatim>\<open>fs.existsSync\<close> holds for files and
  directories, \<^verbatim>\<open>fs.readFile\<close> rejects on a directory, and that rejection leaves
  \<^verbatim>\<open>injectclyroTheme\<close> as an exception. The logger calls are recorded as events: the
  warning carries the path it prints, the success message prints the base name of the
  path it carries. Failures of the write itself are not modelled.
\<close>

datatype entry = File string | Directory

datatype io_error = EISDIR

datatype log_event = Warn_not_found string | Info_merged string

record world =
  files :: "string \<rightharpoonup> entry"
  logged :: "log_event list"

definition injectclyroTheme :: "string \<Rightarrow> string \<Rightarrow> world \<Rightarrow> (io_error + unit) \<times> world" where
  "injectclyroTheme template cssFilePath w =
     (case files w cssFilePath of
        None \<Rightarrow> (Inr (), w\<lparr>logged := logged w @ [Warn_not_found cssFilePath]\<rparr>)
      | Some Directory \<Rightarrow> (Inl EISDIR, w)
      | Some (File cssContent) \<Rightarrow>
          (Inr (),
           w\<lparr>files := (files w)(cssFilePath \<mapsto> File (finalCss template cssContent)),
             logged := logged w @ [Info_merged cssFilePath]\<rparr>))"

section \<open>Notions used in the statements\<close>

text \<open>
  The depth counter of the block extractor after it has read the characters \<open>xs\<close> behind
  the opening brace: it starts at 1, \<^verbatim>\<open>{\<close> adds one and \<^verbatim>\<open>}\<close> takes one away.
\<close>

definition depth :: "string \<Rightarrow> int" where
  "depth xs = 1 + int (count_list xs CHR ''{'') - int (count_list xs CHR ''}'')"

text \<open>\<open>pat\<close> starts at index \<open>s\<close> of \<open>text\<close> and at no smaller index.\<close>

definition first_occurrence :: "string \<Rightarrow> string \<Rightarrow> nat \<Rightarrow> bool" where
  "first_occurrence pat text s \<longleftrightarrow>
     prefix pat (drop s text) \<and> (\<forall>j<s. \<not> prefix pat (drop j text))"

text \<open>
  The maps for which composing and extracting is a round trip. A key is \<^verbatim>\<open>--\<close> followed by a
  non-empty name of \<^verbatim>\<open>[\w-]\<close> characters. A value is non-empty, has no white space at either
  end, holds no line terminator, and comment stripping leaves it as it is. Keys are unique,
  as in every object.
\<close>

definition valid_key :: "string \<Rightarrow> bool" where
  "valid_key k \<longleftrightarrow>
     (case k of
        a # b # name \<Rightarrow> a = CHR ''-'' \<and> b = CHR ''-'' \<and> name \<noteq> [] \<and> list_all isNameChar name
      | _ \<Rightarrow> False)"

definition valid_value :: "string \<Rightarrow> bool" where
  "valid_value v \<longleftrightarrow>
     v \<noteq> [] \<and> \<not> isWhiteSpace (hd v) \<and> \<not> isWhiteSpace (last v) \<and>
     \<not> list_ex isLineTerminator v \<and> strip_comments v = v"

definition valid_vars :: "vars \<Rightarrow> bool" where
  "valid_vars m \<longleftrightarrow>
     distinct (map fst m) \<and> list_all (\<lambda>(k, v). valid_key k \<and> valid_value v) m"

text \<open>The line that \<^verbatim>\<open>buildBlock\<close> writes for one entry.\<close>

definition entry_line :: "string \<times> string \<Rightarrow> string" where
  "entry_line = (\<lambda>(key, val). ''  '' @ key @ '': '' @ val @ '';'')"

text \<open>
  The section of the text that \<^verbatim>\<open>text.replace(RE, "")\<close> removes: group 0 of the leftmost
  match, empty when there is none.
\<close>

definition regex_section :: "(string \<Rightarrow> regmatch option) \<Rightarrow> string \<Rightarrow> string" where
  "regex_section re text = (case re text of None \<Rightarrow> [] | Some m \<Rightarrow> m_whole m)"






section \<open>Variable maps\<close>

lemma keys_update:
  "map fst (AList.update k v al) =
     (if k \<in> fst ` set al then map fst al else map fst al @ [k])"
  by (induction al) auto

lemma mergeVars_keys:
  "distinct (map fst user) \<Longrightarrow>
   map fst (mergeVars core user) =
     map fst core @ filter (\<lambda>k. k \<notin> fst ` set core) (map fst user)"
  unfolding mergeVars_def
proof (induction user arbitrary: core)
  case Nil
  then show ?case by simp
next
  case (Cons p user)
  obtain k v where p: "p = (k, v)" by (cases p)
  from Cons.prems p have d: "distinct (map fst user)" and k: "k \<notin> fst ` set user"
    by auto
  have f: "filter (\<lambda>x. x \<notin> fst ` set (AList.update k v core)) (map fst user) =
           filter (\<lambda>x. x \<notin> fst ` set core) (map fst user)"
    using k by (intro filter_cong) (auto simp: dom_update)
  have "map fst (foldl (\<lambda>acc (key, val). AList.update key val acc) (AList.update k v core) user)
        = map fst (AList.update k v core) @ filter (\<lambda>x. x \<notin> fst ` set core) (map fst user)"
    using Cons.IH [OF d, of "AList.update k v core"] f by simp
  then show ?case
    by (simp add: p keys_update)
qed

lemma mergeVars_map_of:
  "distinct (map fst user) \<Longrightarrow> map_of (mergeVars core user) = map_of core ++ map_of user"
  unfolding mergeVars_def
proof (induction user arbitrary: core)
  case Nil
  then show ?case by simp
next
  case (Cons p user)
  obtain k v where p: "p = (k, v)" by (cases p)
  from Cons.prems p have d: "distinct (map fst user)" and k: "k \<notin> fst ` set user"
    by auto
  from k have n: "map_of user k = None"
    by (simp add: map_of_eq_None_iff)
  have "map_of (AList.update k v core) ++ map_of user = map_of core ++ map_of ((k, v) # user)"
    using n by (auto simp: update_conv' map_add_def fun_eq_iff split: option.splits)
  then show ?case
    using Cons.IH [OF d, of "AList.update k v core"]
    by (simp only: p foldl_Cons prod.case)
qed

text \<open>
  The keys of an object are unique, and so are those of every map the extractor builds;
  this is the hypothesis on the user map below.
\<close>

lemma set_var_distinct: "distinct (map fst vs) \<Longrightarrow> distinct (map fst (set_var vs line))"
  by (auto simp: set_var_def distinct_update split: option.splits)

lemma foldl_set_var_distinct:
  "distinct (map fst vs) \<Longrightarrow> distinct (map fst (foldl set_var vs ls))"
  by (induction ls arbitrary: vs) (auto simp: set_var_distinct)

lemma extractVars_distinct: "distinct (map fst (extractVars block))"
  by (simp add: extractVars_def foldl_set_var_distinct)

text \<open>
  Claim C3. The merged map holds every template key, with the user's value when the user
  map has the key and the template's value otherwise; it holds every key that only the
  user map has, with the user's value; its keys are the template keys in template order
  followed by the user-only keys in user order.
\<close>

theorem mergeVars_spec:
  assumes "distinct (map fst user)"
  shows "(\<forall>k \<in> fst ` set template.
            map_of (mergeVars template user) k =
              (if k \<in> fst ` set user then map_of user k else map_of template k)) \<and>
         (\<forall>k \<in> fst ` set user. k \<notin> fst ` set template \<longrightarrow>
            map_of (mergeVars template user) k = map_of user k) \<and>
         map fst (mergeVars template user) =
           map fst template @ filter (\<lambda>k. k \<notin> fst ` set template) (map fst user)"
proof -
  have v: "map_of (mergeVars template user) k =
             (if k \<in> fst ` set user then map_of user k else map_of template k)" for k
  proof (cases "map_of user k")
    case None
    then have "k \<notin> fst ` set user"
      by (simp add: map_of_eq_None_iff)
    with None show ?thesis
      using assms by (simp add: mergeVars_map_of map_add_def)
  next
    case (Some v)
    then have "k \<in> fst ` set user"
      by (metis map_of_eq_None_iff option.distinct(1))
    with Some show ?thesis
      using assms by (simp add: mergeVars_map_of map_add_def)
  qed
  show ?thesis
    using assms v by (simp add: mergeVars_keys)
qed

theorem mergeVars_spec_witness:
  "distinct (map fst [(''--x'', ''0''), (''--a'', ''1'')]) \<and>
   map_of (mergeVars [(''--a'', ''9''), (''--c'', ''3'')] [(''--x'', ''0''), (''--a'', ''1'')]) ''--a'' =
     Some ''1'' \<and>
   map_of (mergeVars [(''--a'', ''9''), (''--c'', ''3'')] [(''--x'', ''0''), (''--a'', ''1'')]) ''--c'' =
     Some ''3'' \<and>
   map_of (mergeVars [(''--a'', ''9''), (''--c'', ''3'')] [(''--x'', ''0''), (''--a'', ''1'')]) ''--x'' =
     Some ''0'' \<and>
   map fst (mergeVars [(''--a'', ''9''), (''--c'', ''3'')] [(''--x'', ''0''), (''--a'', ''1'')]) =
     [''--a'', ''--c'', ''--x'']"
  using mergeVars_spec [of "[(''--x'', ''0''), (''--a'', ''1'')]" "[(''--a'', ''9''), (''--c'', ''3'')]"]
  by simp

section \<open>The import list\<close>

lemma count_list_filter: "count_list (filter P xs) x = (if P x then count_list xs x else 0)"
  by (induction xs) auto

text \<open>
  Claim C4, as the specification states it: a stylesheet with the line
  \<^verbatim>\<open>@import "tailwindcss";\<close> twice and without \<^verbatim>\<open>@import "tw-animate-css";\<close> gives an import
  list of exactly two lines. The collector pushes every import line it meets and looks
  for duplicates only among the required imports, so the list has three lines.
\<close>

theorem importLines_dedup_counterexample:
  \<open>length (importLines ''@import "tailwindcss";\<newline>@import "tailwindcss";'') \<noteq> 2\<close>
  by code_simp

text \<open>
  Claim C4, amended. When the trimmed lines of the stylesheet hold
  \<^verbatim>\<open>@import "tailwindcss";\<close> twice and never \<^verbatim>\<open>@import "tw-animate-css";\<close>, the import list
  is the trimmed import lines of the file in their order, repetitions kept, followed by
  the missing required import: the user's line occurs twice in it and the appended
  import once.
\<close>

theorem importLines_keeps_duplicates:
  assumes \<open>count_list (map trim (split_nl css)) ''@import "tailwindcss";'' = 2\<close>
      and \<open>''@import "tw-animate-css";'' \<notin> set (map trim (split_nl css))\<close>
  shows \<open>importLines css =
           filter (prefix ''@import'') (map trim (split_nl css)) @ [''@import "tw-animate-css";''] \<and>
         count_list (importLines css) ''@import "tailwindcss";'' = 2 \<and>
         count_list (importLines css) ''@import "tw-animate-css";'' = 1\<close>
proof -
  let ?U = "filter (prefix ''@import'') (map trim (split_nl css))"
  have u: "map trim (filter (\<lambda>line. prefix ''@import'' (trim line)) (split_nl css)) = ?U"
    by (simp add: filter_map comp_def)
  have c: \<open>count_list ?U ''@import "tailwindcss";'' = 2\<close>
    using assms(1) by (simp add: count_list_filter)
  then have m: \<open>''@import "tailwindcss";'' \<in> set ?U\<close>
    by (metis count_list_0_iff zero_neq_numeral)
  have n: \<open>''@import "tw-animate-css";'' \<notin> set ?U\<close>
    using assms(2) by simp
  then have z: \<open>count_list ?U ''@import "tw-animate-css";'' = 0\<close>
    by (simp only: count_list_0_iff not_False_eq_True)
  have i: \<open>importLines css = ?U @ [''@import "tw-animate-css";'']\<close>
    unfolding importLines_def u REQUIRED_IMPORTS_def using m n by simp
  show ?thesis
    unfolding i using c z by simp
qed

theorem importLines_keeps_duplicates_witness:
  \<open>importLines ''@import "tailwindcss";\<newline>@import "tailwindcss";'' =
     [''@import "tailwindcss";'', ''@import "tailwindcss";'', ''@import "tw-animate-css";'']\<close>
  using importLines_keeps_duplicates [of \<open>''@import "tailwindcss";\<newline>@import "tailwindcss";''\<close>]
  by (simp add: trim_def isWhiteSpace_def)

text \<open>
  Claim C5 says that every line whose trimmed form starts with \<^verbatim>\<open>@import\<close> is captured
  and also removed from the working text. The capture looks at the trimmed line; the
  removal is \<^verbatim>\<open>IMPORT_REGEX\<close>, which wants \<^verbatim>\<open>@import\<close> in the first column and \<^verbatim>\<open>;\<close> as
  the last character of the line. For the two-line file below the indented import is
  captured, and the working text and the leftover content still hold it.
\<close>

theorem indented_import_not_removed:
  \<open>importLines ''  @import "x.css";\<newline>body {}'' =
      [''@import "x.css";'', ''@import "tailwindcss";'', ''@import "tw-animate-css";''] \<and>
    workingContent ''  @import "x.css";\<newline>body {}'' = ''@import "x.css";\<newline>body {}'' \<and>
    stripSections (workingContent ''  @import "x.css";\<newline>body {}'') =
      ''@import "x.css";\<newline>body {}''\<close>
  by code_simp

section \<open>Declarations with a trailing comment\<close>

text \<open>
  Claim C7 expects the entry \<^verbatim>\<open>--a = 1\<close> from the line \<^verbatim>\<open>--a: 1; /* note */\<close>. The code
  trims the line first and strips the comment afterwards; the blank before the comment
  stays behind the \<^verbatim>\<open>;\<close>, the declaration pattern needs \<^verbatim>\<open>;\<close> at the very end, and the
  line yields no entry.
\<close>

theorem extractVars_trailing_comment:
  "extractVars ''--a: 1; /* note */'' = []"
  by code_simp

section \<open>A missing target file\<close>

text \<open>
  Claim C9. When the path names no file, \<^verbatim>\<open>injectclyroTheme\<close> returns normally, leaves
  the file system as it was and reports the missing file through the logger's warning.
\<close>

theorem missing_file_noop:
  assumes "files w cssFilePath = None"
  shows "fst (injectclyroTheme template cssFilePath w) = Inr () \<and>
         files (snd (injectclyroTheme template cssFilePath w)) = files w \<and>
         logged (snd (injectclyroTheme template cssFilePath w)) =
           logged w @ [Warn_not_found cssFilePath]"
  using assms by (simp add: injectclyroTheme_def)

theorem missing_file_noop_witness:
  "fst (injectclyroTheme '':root {}'' ''src/app.css''
          \<lparr>files = [''src/index.css'' \<mapsto> File ''a {}''], logged = []\<rparr>) = Inr () \<and>
   files (snd (injectclyroTheme '':root {}'' ''src/app.css''
          \<lparr>files = [''src/index.css'' \<mapsto> File ''a {}''], logged = []\<rparr>)) =
     [''src/index.css'' \<mapsto> File ''a {}''] \<and>
   logged (snd (injectclyroTheme '':root {}'' ''src/app.css''
          \<lparr>files = [''src/index.css'' \<mapsto> File ''a {}''], logged = []\<rparr>)) =
     [Warn_not_found ''src/app.css'']"
  using missing_file_noop
          [of "\<lparr>files = [''src/index.css'' \<mapsto> File ''a {}''], logged = []\<rparr>"
              "''src/app.css''" "'':root {}''"]
  by simp

section \<open>The block extractor meets its contract\<close>

lemma index_in_first: "first_occurrence pat t s \<Longrightarrow> index_in pat t = Some s"
proof (induction t arbitrary: s)
  case Nil
  then have "pat = []" by (simp add: first_occurrence_def)
  with Nil have "s = 0"
    by (cases s) (auto simp: first_occurrence_def)
  with \<open>pat = []\<close> show ?case by simp
next
  case (Cons c cs)
  show ?case
  proof (cases "prefix pat (c # cs)")
    case True
    with Cons.prems have "s = 0"
      by (cases s) (auto simp: first_occurrence_def)
    with True show ?thesis by simp
  next
    case False
    with Cons.prems obtain s' where s: "s = Suc s'"
      by (cases s) (auto simp: first_occurrence_def)
    have "first_occurrence pat cs s'"
      unfolding first_occurrence_def
    proof (intro conjI allI impI)
      show "prefix pat (drop s' cs)"
        using Cons.prems s by (simp add: first_occurrence_def)
      fix j assume "j < s'"
      then have "Suc j < s" using s by simp
      with Cons.prems have "\<not> prefix pat (drop (Suc j) (c # cs))"
        unfolding first_occurrence_def by blast
      then show "\<not> prefix pat (drop j cs)" by simp
    qed
    from Cons.IH [OF this] False s show ?thesis by simp
  qed
qed

lemma index_in_absent: "\<not> sublist pat t \<Longrightarrow> index_in pat t = None"
proof (induction t)
  case Nil
  then have "pat \<noteq> []" by (cases pat) simp_all
  then show ?case by simp
next
  case (Cons c cs)
  from Cons.prems have "\<not> prefix pat (c # cs)" and "\<not> sublist pat cs"
    by (simp_all add: sublist_Cons_right)
  then show ?case
    using Cons.IH by simp
qed

lemma index_in_no_brace: "CHR ''{'' \<notin> set t \<Longrightarrow> index_in ''{'' t = None"
  by (induction t) auto

lemma index_in_brace:
  "CHR ''{'' \<notin> set a \<Longrightarrow> index_in ''{'' (a @ CHR ''{'' # r) = Some (length a)"
  by (induction a) auto

lemma depth_Cons:
  "depth (x # xs) =
     depth xs + (if x = CHR ''{'' then 1 else if x = CHR ''}'' then - 1 else 0)"
  by (simp add: depth_def)

lemma scan_closed:
  "0 < b \<Longrightarrow> (\<forall>p. prefix p body \<longrightarrow> 0 < b - 1 + depth p) \<Longrightarrow> b - 1 + depth body = 1 \<Longrightarrow>
   scan (pre @ body @ CHR ''}'' # tail) (length pre) b = length pre + length body + 1"
proof (induction body arbitrary: pre b)
  case Nil
  then have b: "b = 1" by (simp add: depth_def)
  have "scan (pre @ CHR ''}'' # tail) (length pre) 1 = scan (pre @ CHR ''}'' # tail) (length pre + 1) 0"
    by (subst scan.simps) simp
  also have "\<dots> = length pre + 1"
    by (subst scan.simps) simp
  finally show ?case using b by simp
next
  case (Cons x xs)
  let ?b = "if x = CHR ''{'' then b + 1 else if x = CHR ''}'' then b - 1 else b"
  have step: "scan (pre @ (x # xs) @ CHR ''}'' # tail) (length pre) b =
              scan ((pre @ [x]) @ xs @ CHR ''}'' # tail) (length (pre @ [x])) ?b"
    using Cons.prems(1) by (subst scan.simps) (simp add: nth_append)
  have b': "?b = b - 1 + depth [x]"
    by (simp add: depth_def)
  have "prefix [x] (x # xs)" by simp
  with Cons.prems(2) have pos: "0 < ?b"
    unfolding b' by blast
  have pre': "\<forall>p. prefix p xs \<longrightarrow> 0 < ?b - 1 + depth p"
  proof (intro allI impI)
    fix p assume "prefix p xs"
    then have "prefix (x # p) (x # xs)" by simp
    with Cons.prems(2) have "0 < b - 1 + depth (x # p)" by blast
    then show "0 < ?b - 1 + depth p"
      by (simp add: depth_Cons split: if_splits)
  qed
  have fin: "?b - 1 + depth xs = 1"
    using Cons.prems(3) by (simp add: depth_Cons split: if_splits)
  have ih: "scan ((pre @ [x]) @ xs @ CHR ''}'' # tail) (length (pre @ [x])) ?b =
            length (pre @ [x]) + length xs + 1"
    by (rule Cons.IH [OF pos pre' fin])
  show ?case
    by (simp only: step ih) simp
qed

lemma scan_open:
  "(\<forall>p. prefix p rest \<longrightarrow> 0 < b - 1 + depth p) \<Longrightarrow>
   scan (pre @ rest) (length pre) b = length pre + length rest"
proof (induction rest arbitrary: pre b)
  case Nil
  show ?case by (subst scan.simps) simp
next
  case (Cons x xs)
  let ?b = "if x = CHR ''{'' then b + 1 else if x = CHR ''}'' then b - 1 else b"
  have "prefix [] (x # xs)" by simp
  with Cons.prems have "0 < b - 1 + depth []" by blast
  then have b: "0 < b" by (simp add: depth_def)
  have step: "scan (pre @ x # xs) (length pre) b =
              scan ((pre @ [x]) @ xs) (length (pre @ [x])) ?b"
    using b by (subst scan.simps) (simp add: nth_append)
  have pre': "\<forall>p. prefix p xs \<longrightarrow> 0 < ?b - 1 + depth p"
  proof (intro allI impI)
    fix p assume "prefix p xs"
    then have "prefix (x # p) (x # xs)" by simp
    with Cons.prems have "0 < b - 1 + depth (x # p)" by blast
    then show "0 < ?b - 1 + depth p"
      by (simp add: depth_Cons split: if_splits)
  qed
  have ih: "scan ((pre @ [x]) @ xs) (length (pre @ [x])) ?b = length (pre @ [x]) + length xs"
    by (rule Cons.IH [OF pre'])
  show ?case
    by (simp only: step ih) simp
qed

lemma all_prefixes: "(\<forall>p. prefix p xs \<longrightarrow> P p) \<longleftrightarrow> list_all P (prefixes xs)"
  by (auto simp: list_all_iff)

lemma indexOf_keyword: "first_occurrence keyword content s \<Longrightarrow> indexOf content keyword 0 = Some s"
  by (simp add: indexOf_def index_in_first)

lemma extractBlock_closed:
  assumes f: "first_occurrence keyword content s"
      and d: "drop s content = a @ ''{'' @ body @ ''}'' @ tail"
      and a: "CHR ''{'' \<notin> set a"
      and p: "\<forall>p. prefix p body \<longrightarrow> 0 < depth p"
      and b: "depth body = 1"
  shows "extractBlock content keyword = a @ ''{'' @ body @ ''}''"
proof -
  from d have s: "s < length content"
    by (metis append_is_Nil_conv drop_eq_Nil list.distinct(1) not_le)
  have c: "content = (take s content @ a @ ''{'') @ body @ CHR ''}'' # tail"
    using d by (metis append.assoc append_Cons append_Nil append_take_drop_id)
  have o: "indexOf content ''{'' s = Some (s + length a)"
    using s d a by (simp add: indexOf_def min_def index_in_brace)
  have l: "length (take s content @ a @ ''{'') = s + length a + 1"
    using s by simp
  have "scan content (s + length a + 1) 1 = s + length a + 1 + length body + 1"
    using scan_closed [of 1 body "take s content @ a @ ''{''" tail] p b
    unfolding l c [symmetric] by simp
  then show ?thesis
    using indexOf_keyword [OF f] o d by (simp add: extractBlock_def slice_def)
qed

lemma extractBlock_open:
  assumes f: "first_occurrence keyword content s"
      and d: "drop s content = a @ ''{'' @ rest"
      and a: "CHR ''{'' \<notin> set a"
      and p: "\<forall>p. prefix p rest \<longrightarrow> 0 < depth p"
  shows "extractBlock content keyword = drop s content"
proof -
  from d have s: "s < length content"
    by (metis append_is_Nil_conv drop_eq_Nil list.distinct(1) not_le)
  have c: "content = (take s content @ a @ ''{'') @ rest"
    using d by (metis append.assoc append_take_drop_id)
  have o: "indexOf content ''{'' s = Some (s + length a)"
    using s d a by (simp add: indexOf_def min_def index_in_brace)
  have l: "length (take s content @ a @ ''{'') = s + length a + 1"
    using s by simp
  have "scan content (s + length a + 1) 1 = s + length a + 1 + length rest"
    using scan_open [of rest 1 "take s content @ a @ ''{''"] p
    unfolding l c [symmetric] by simp
  then show ?thesis
    using indexOf_keyword [OF f] o d by (simp add: extractBlock_def slice_def)
qed

lemma extractBlock_no_keyword: "\<not> sublist keyword content \<Longrightarrow> extractBlock content keyword = []"
  by (simp add: extractBlock_def indexOf_def index_in_absent)

lemma extractBlock_no_brace:
  "first_occurrence keyword content s \<Longrightarrow> CHR ''{'' \<notin> set (drop s content) \<Longrightarrow>
   extractBlock content keyword = []"
  using indexOf_keyword [of keyword content s]
  by (simp add: extractBlock_def indexOf_def min_def index_in_no_brace) 


text \<open>
  Claim C6. \<^verbatim>\<open>extractBlock\<close> returns the empty text when the keyword does not occur, and
  when no \<^verbatim>\<open>{\<close> stands at or behind its first occurrence. Otherwise it returns the text
  from the first occurrence of the keyword through the first \<^verbatim>\<open>}\<close> that brings the depth
  counter to 0; and when the counter stays positive up to the end of the input, it
  returns the text from the keyword to the end of the input. The function is total: no
  case raises.
\<close>

theorem extractBlock_spec:
  "(\<not> sublist keyword content \<longrightarrow> extractBlock content keyword = []) \<and>
   (\<forall>s. first_occurrence keyword content s \<and> CHR ''{'' \<notin> set (drop s content) \<longrightarrow>
      extractBlock content keyword = []) \<and>
   (\<forall>s a body tail.
      first_occurrence keyword content s \<and> drop s content = a @ ''{'' @ body @ ''}'' @ tail \<and>
      CHR ''{'' \<notin> set a \<and> (\<forall>p. prefix p body \<longrightarrow> 0 < depth p) \<and> depth (body @ ''}'') = 0 \<longrightarrow>
      extractBlock content keyword = a @ ''{'' @ body @ ''}'') \<and>
   (\<forall>s a rest.
      first_occurrence keyword content s \<and> drop s content = a @ ''{'' @ rest \<and>
      CHR ''{'' \<notin> set a \<and> (\<forall>p. prefix p rest \<longrightarrow> 0 < depth p) \<longrightarrow>
      extractBlock content keyword = drop s content)"
proof (intro conjI allI impI)
  assume "\<not> sublist keyword content"
  then show "extractBlock content keyword = []"
    by (rule extractBlock_no_keyword)
next
  fix s
  assume "first_occurrence keyword content s \<and> CHR ''{'' \<notin> set (drop s content)"
  then show "extractBlock content keyword = []"
    using extractBlock_no_brace by blast
next
  fix s a body tail
  assume h: "first_occurrence keyword content s \<and> drop s content = a @ ''{'' @ body @ ''}'' @ tail \<and>
      CHR ''{'' \<notin> set a \<and> (\<forall>p. prefix p body \<longrightarrow> 0 < depth p) \<and> depth (body @ ''}'') = 0"
  then have "depth body = 1"
    by (simp add: depth_def)
  with h show "extractBlock content keyword = a @ ''{'' @ body @ ''}''"
    by (intro extractBlock_closed [of keyword content s a body tail]) simp_all
next
  fix s a rest
  assume "first_occurrence keyword content s \<and> drop s content = a @ ''{'' @ rest \<and>
      CHR ''{'' \<notin> set a \<and> (\<forall>p. prefix p rest \<longrightarrow> 0 < depth p)"
  then show "extractBlock content keyword = drop s content"
    by (intro extractBlock_open [of keyword content s a rest]) simp_all
qed

theorem extractBlock_spec_witness:
  "extractBlock ''a{b}'' ''@x'' = [] \<and>
   extractBlock ''a}@x b'' ''@x'' = [] \<and>
   extractBlock ''a@x {b{c}d}e}'' ''@x'' = ''@x {b{c}d}'' \<and>
   extractBlock ''a@x {b{c}d'' ''@x'' = ''@x {b{c}d''"
proof (intro conjI)
  have "\<not> sublist ''@x'' ''a{b}''"
    by code_simp
  then show "extractBlock ''a{b}'' ''@x'' = []"
    by (rule extractBlock_spec [of "''@x''" "''a{b}''", THEN conjunct1, rule_format])
next
  have "first_occurrence ''@x'' ''a}@x b'' 2 \<and> CHR ''{'' \<notin> set (drop 2 ''a}@x b'')"
    by (simp add: first_occurrence_def less_Suc_eq numeral_2_eq_2)
  then show "extractBlock ''a}@x b'' ''@x'' = []"
    by (rule extractBlock_spec [of "''@x''" "''a}@x b''", THEN conjunct2, THEN conjunct1,
          rule_format])
next
  have "first_occurrence ''@x'' ''a@x {b{c}d}e}'' 1 \<and>
        drop 1 ''a@x {b{c}d}e}'' = ''@x '' @ ''{'' @ ''b{c}d'' @ ''}'' @ ''e}'' \<and>
        CHR ''{'' \<notin> set ''@x '' \<and> (\<forall>p. prefix p ''b{c}d'' \<longrightarrow> 0 < depth p) \<and>
        depth (''b{c}d'' @ ''}'') = 0"
    by (simp add: first_occurrence_def depth_def all_prefixes)
  then have "extractBlock ''a@x {b{c}d}e}'' ''@x'' = ''@x '' @ ''{'' @ ''b{c}d'' @ ''}''"
    by (rule extractBlock_spec [of "''@x''" "''a@x {b{c}d}e}''", THEN conjunct2, THEN conjunct2,
          THEN conjunct1, rule_format])
  then show "extractBlock ''a@x {b{c}d}e}'' ''@x'' = ''@x {b{c}d}''"
    by simp
next
  have "first_occurrence ''@x'' ''a@x {b{c}d'' 1 \<and>
        drop 1 ''a@x {b{c}d'' = ''@x '' @ ''{'' @ ''b{c}d'' \<and>
        CHR ''{'' \<notin> set ''@x '' \<and> (\<forall>p. prefix p ''b{c}d'' \<longrightarrow> 0 < depth p)"
    by (simp add: first_occurrence_def depth_def all_prefixes)
  then have "extractBlock ''a@x {b{c}d'' ''@x'' = drop 1 ''a@x {b{c}d''"
    by (rule extractBlock_spec [of "''@x''" "''a@x {b{c}d''", THEN conjunct2, THEN conjunct2,
          THEN conjunct2, rule_format])
  then show "extractBlock ''a@x {b{c}d'' ''@x'' = ''@x {b{c}d''"
    by simp
qed

section \<open>Composing and extracting\<close>

subsection \<open>Lines\<close>

lemma split_nl_not_Nil: "split_nl s \<noteq> []"
  by (induction s) (auto split: list.splits)

lemma split_nl_append: "split_nl (a @ CHR 0x0A # b) = split_nl a @ split_nl b"
proof (induction a)
  case Nil
  show ?case by simp
next
  case (Cons c cs)
  obtain l ls where l: "split_nl cs = l # ls"
    using split_nl_not_Nil [of cs] by (cases "split_nl cs") auto
  show ?case
    using Cons.IH l by simp
qed

lemma split_nl_single: "CHR 0x0A \<notin> set s \<Longrightarrow> split_nl s = [s]"
  by (induction s) auto

lemma split_nl_join:
  "ls \<noteq> [] \<Longrightarrow> \<forall>l \<in> set ls. CHR 0x0A \<notin> set l \<Longrightarrow> split_nl (join [CHR 0x0A] ls) = ls"
proof (induction ls)
  case Nil
  then show ?case by simp
next
  case (Cons x xs)
  show ?case
  proof (cases xs)
    case Nil
    with Cons.prems show ?thesis by (simp add: split_nl_single)
  next
    case (Cons y ys)
    have "split_nl (x @ CHR 0x0A # join [CHR 0x0A] (y # ys)) =
          split_nl x @ split_nl (join [CHR 0x0A] (y # ys))"
      by (rule split_nl_append)
    with Cons Cons.prems Cons.IH show ?thesis
      by (simp add: split_nl_single)
  qed
qed

subsection \<open>Trimming\<close>

lemma dropWhile_last: "s \<noteq> [] \<Longrightarrow> \<not> P (last s) \<Longrightarrow> dropWhile P s \<noteq> [] \<and> last (dropWhile P s) = last s"
  by (induction s) (auto split: if_splits)

lemma trim_end_kept:
  assumes "s \<noteq> []" "\<not> isWhiteSpace (last s)"
  shows "trim s = dropWhile isWhiteSpace s"
proof -
  let ?d = "dropWhile isWhiteSpace s"
  from assms have "?d \<noteq> []" "last ?d = last s"
    using dropWhile_last [of s isWhiteSpace] by auto
  then have "rev ?d \<noteq> []" "\<not> isWhiteSpace (hd (rev ?d))"
    using assms(2) by (simp_all add: hd_rev)
  then have "dropWhile isWhiteSpace (rev ?d) = rev ?d"
    by (cases "rev ?d") auto
  then show ?thesis
    by (simp add: trim_def)
qed

lemma trim_id: "s \<noteq> [] \<Longrightarrow> \<not> isWhiteSpace (hd s) \<Longrightarrow> \<not> isWhiteSpace (last s) \<Longrightarrow> trim s = s"
  by (cases s) (auto simp: trim_end_kept simp del: last.simps)

subsection \<open>Comment stripping\<close>

lemma comment_rest_suffix: "comment_rest t = Some r \<Longrightarrow> suffix (CHR ''/'' # r) t"
proof (induction t arbitrary: r rule: comment_rest.induct)
  case (3 c d cs)
  show ?case
  proof (cases "c = CHR ''*'' \<and> d = CHR ''/''")
    case True
    with 3 show ?thesis
      by (auto simp: suffix_def intro: exI [of _ "[c]"])
  next
    case False
    with 3 have "suffix (CHR ''/'' # r) (d # cs)"
      by (auto split: if_splits)
    then show ?thesis
      by (rule suffix_ConsI)
  qed
qed simp_all

lemma comment_at_suffix: "comment_at t = Some r \<Longrightarrow> suffix (CHR ''/'' # r) t"
  by (auto simp: comment_at_def suffix_ConsI split: list.splits if_splits dest!: comment_rest_suffix)

lemma comment_at_last:
  assumes "comment_at t = Some r" "last t \<noteq> CHR ''/''"
  shows "r \<noteq> [] \<and> last r = last t"
proof -
  from comment_at_suffix [OF assms(1)] obtain p where t: "t = p @ CHR ''/'' # r"
    by (auto simp: suffix_def)
  with assms(2) show ?thesis
    by (cases r) auto
qed

lemma strip_comments_last:
  "t \<noteq> [] \<Longrightarrow> last t \<noteq> CHR ''/'' \<Longrightarrow>
   strip_comments t \<noteq> [] \<and> last (strip_comments t) = last t"
proof (induction t rule: strip_comments.induct)
  case 1
  then show ?case by simp
next
  case (2 c cs)
  show ?case
  proof (cases "comment_at (c # cs)")
    case None
    show ?thesis
    proof (cases cs)
      case Nil
      with None show ?thesis by simp
    next
      case (Cons d ds)
      with 2 None show ?thesis by simp
    qed
  next
    case (Some r)
    from comment_at_last [OF Some "2.prems"(2)] have "r \<noteq> []" "last r = last (c # cs)"
      by simp_all
    with 2 Some show ?thesis by simp
  qed
qed

lemma comment_rest_no_slash: "CHR ''/'' \<notin> set t \<Longrightarrow> comment_rest t = None"
  by (induction t rule: comment_rest.induct) auto

lemma comment_rest_append:
  "CHR ''/'' \<notin> set post \<Longrightarrow>
   comment_rest (t @ post) = map_option (\<lambda>r. r @ post) (comment_rest t)"
proof (induction t rule: comment_rest.induct)
  case 1
  then show ?case by (simp add: comment_rest_no_slash)
next
  case (2 c)
  then show ?case
    by (cases post) (auto simp: comment_rest_no_slash)
next
  case (3 c d cs)
  then show ?case by simp
qed

lemma comment_at_append:
  "CHR ''/'' \<notin> set post \<Longrightarrow> t \<noteq> [] \<Longrightarrow>
   comment_at (t @ post) = map_option (\<lambda>r. r @ post) (comment_at t)"
proof (cases t)
  case Nil
  assume "t \<noteq> []"
  with Nil show ?thesis by simp
next
  case (Cons c cs)
  assume p: "CHR ''/'' \<notin> set post"
  show ?thesis
  proof (cases cs)
    case Nil
    with Cons p show ?thesis
      by (cases post) (auto simp: comment_at_def comment_rest_no_slash)
  next
    case (Cons d ds)
    with \<open>t = c # cs\<close> p show ?thesis
      by (simp add: comment_at_def comment_rest_append)
  qed
qed

lemma comment_at_not_slash: "c \<noteq> CHR ''/'' \<Longrightarrow> comment_at (c # cs) = None"
  by (simp add: comment_at_def split: list.splits)

lemma strip_comments_prepend:
  "CHR ''/'' \<notin> set pre \<Longrightarrow> strip_comments (pre @ t) = pre @ strip_comments t"
proof (induction pre)
  case Nil
  show ?case by simp
next
  case (Cons c pre)
  then have "comment_at (c # pre @ t) = None"
    by (intro comment_at_not_slash) auto
  with Cons show ?case by simp
qed

lemma strip_comments_no_slash: "CHR ''/'' \<notin> set t \<Longrightarrow> strip_comments t = t"
  using strip_comments_prepend [of t "[]"] by simp

lemma strip_comments_append:
  "CHR ''/'' \<notin> set post \<Longrightarrow> strip_comments (t @ post) = strip_comments t @ post"
proof (induction t rule: strip_comments.induct)
  case 1
  then show ?case by (simp add: strip_comments_no_slash)
next
  case (2 c cs)
  have a: "comment_at ((c # cs) @ post) = map_option (\<lambda>r. r @ post) (comment_at (c # cs))"
    using "2.prems" by (intro comment_at_append) simp_all
  show ?case
  proof (cases "comment_at (c # cs)")
    case None
    with a have "comment_at (c # cs @ post) = None" by simp
    with None 2 show ?thesis by simp
  next
    case (Some r)
    with a have "comment_at (c # cs @ post) = Some (r @ post)" by simp
    with Some 2 show ?thesis by simp
  qed
qed

subsection \<open>One line of a composed block\<close>

lemma match_decl_last: "match_decl l = Some x \<Longrightarrow> l \<noteq> [] \<and> last l = CHR '';''"
proof -
  assume m: "match_decl l = Some x"
  then obtain a b r where l: "l = a # b # r"
    by (auto simp: match_decl_def split: list.splits)
  from m l obtain c r2 where d: "dropWhile isNameChar r = c # r2" "r2 \<noteq> []" "last r2 = CHR '';''"
    by (auto simp: match_decl_def Let_def split: list.splits if_splits)
  have "r = takeWhile isNameChar r @ c # r2"
    using d(1) by (metis takeWhile_dropWhile_id)
  then have "last r = last r2"
    using d(2) by (metis last_ConsR last_appendR list.distinct(1))
  with d l show ?thesis
    by (cases r) auto
qed

lemma match_decl_intro:
  assumes "\<forall>c \<in> set name. isNameChar c" "name \<noteq> []"
      and "dropWhile isWhiteSpace body = v" "v \<noteq> []" "\<not> list_ex isLineTerminator v"
  shows "match_decl (''--'' @ name @ '':'' @ body @ '';'') = Some (name, v)"
proof -
  have tw: "takeWhile isNameChar (name @ CHR '':'' # body @ '';'') = name"
    using assms(1) by (simp add: takeWhile_append2 isNameChar_def)
  have dw: "dropWhile isNameChar (name @ CHR '':'' # body @ '';'') = CHR '':'' # body @ '';''"
    using assms(1) by (simp add: dropWhile_append2 isNameChar_def)
  have bl: "butlast (body @ '';'') = body"
    by (simp add: butlast_append)
  show ?thesis
    unfolding match_decl_def
    using assms(2-5) by (simp add: tw dw bl del: dropWhile_eq_Nil_conv)
qed

lemma set_var_skip: "l = [] \<or> last l \<noteq> CHR '';'' \<Longrightarrow> set_var vs l = vs"
  using match_decl_last [of l] by (cases "match_decl l") (auto simp: set_var_def)

lemma header_line_skipped:
  "set_var vs (strip_comments (trim (sel @ '' {''))) = vs"
proof -
  let ?h = "sel @ '' {''"
  have "\<not> isWhiteSpace (last ?h)"
    by (simp add: isWhiteSpace_def)
  then have t: "trim ?h = dropWhile isWhiteSpace ?h"
    by (intro trim_end_kept) simp_all
  have "dropWhile isWhiteSpace ?h \<noteq> [] \<and> last (dropWhile isWhiteSpace ?h) = last ?h"
    by (intro dropWhile_last) (simp_all add: isWhiteSpace_def)
  then have "trim ?h \<noteq> []" "last (trim ?h) = CHR ''{''"
    using t by simp_all
  then have "last (strip_comments (trim ?h)) = CHR ''{''"
    using strip_comments_last [of "trim ?h"] by simp
  then show ?thesis
    by (intro set_var_skip) simp
qed

lemma isNameChar_not_special:
  "isNameChar c \<Longrightarrow> c \<noteq> CHR ''/'' \<and> c \<noteq> CHR 0x0A \<and> c \<noteq> CHR '':'' \<and> \<not> isWhiteSpace c"
  by (auto simp: isNameChar_def isWhiteSpace_def)

lemma valid_keyE:
  assumes "valid_key k"
  obtains name where "k = ''--'' @ name" "name \<noteq> []" "\<forall>c \<in> set name. isNameChar c"
  using assms by (auto simp: valid_key_def list_all_iff split: list.splits)

lemma entry_line_read:
  assumes k: "valid_key k" and v: "valid_value v"
  shows "set_var vs (strip_comments (trim (entry_line (k, v)))) = AList.update k v vs"
proof -
  from k obtain name where n: "k = ''--'' @ name" "name \<noteq> []" "\<forall>c \<in> set name. isNameChar c"
    by (rule valid_keyE)
  from v have v1: "v \<noteq> []" "\<not> isWhiteSpace (hd v)" "\<not> isWhiteSpace (last v)"
    and v2: "\<not> list_ex isLineTerminator v" and v3: "strip_comments v = v"
    by (simp_all add: valid_value_def)
  let ?l = "k @ '': '' @ v @ '';''"
  have "trim (''  '' @ ?l) = dropWhile isWhiteSpace (''  '' @ ?l)"
    by (intro trim_end_kept) (simp_all add: isWhiteSpace_def)
  also have "\<dots> = ?l"
    by (simp add: n isWhiteSpace_def)
  finally have t: "trim (entry_line (k, v)) = ?l"
    by (simp add: entry_line_def)
  have "CHR ''/'' \<notin> set (k @ '': '')"
    using n isNameChar_not_special by auto
  then have "strip_comments ((k @ '': '') @ v @ '';'') = (k @ '': '') @ strip_comments (v @ '';'')"
    by (rule strip_comments_prepend)
  also have "strip_comments (v @ '';'') = strip_comments v @ '';''"
    by (rule strip_comments_append) simp
  finally have s: "strip_comments ?l = ?l"
    using v3 by simp
  have dv: "dropWhile isWhiteSpace ('' '' @ v) = v"
    using v1 by (cases v) (simp_all add: isWhiteSpace_def)
  have "match_decl (''--'' @ name @ '':'' @ ('' '' @ v) @ '';'') = Some (name, v)"
    using n(3) n(2) dv v1(1) v2 by (rule match_decl_intro)
  then have m: "match_decl ?l = Some (name, v)"
    by (simp add: n(1))
  have tv: "trim v = v"
    using v1 by (rule trim_id)
  have f: "strip_comments (trim (entry_line (k, v))) = ?l"
    by (simp only: t s)
  show ?thesis
    unfolding set_var_def f m using tv n(1) by simp
qed

lemma entry_line_no_nl:
  assumes "valid_key k" "valid_value v"
  shows "CHR 0x0A \<notin> set (entry_line (k, v))"
proof -
  from assms(1) obtain name where n: "k = ''--'' @ name" "\<forall>c \<in> set name. isNameChar c"
    by (rule valid_keyE)
  from assms(2) have "CHR 0x0A \<notin> set v"
    by (auto simp: valid_value_def list_ex_iff isLineTerminator_def)
  with n isNameChar_not_special show ?thesis
    by (auto simp: entry_line_def)
qed

subsection \<open>The round trip\<close>

lemma update_new_key: "k \<notin> fst ` set al \<Longrightarrow> AList.update k v al = al @ [(k, v)]"
  by (induction al) auto

lemma mergeVars_fresh:
  "distinct (map fst m) \<Longrightarrow> fst ` set acc \<inter> fst ` set m = {} \<Longrightarrow> mergeVars acc m = acc @ m"
  unfolding mergeVars_def
proof (induction m arbitrary: acc)
  case Nil
  show ?case by simp
next
  case (Cons p m)
  obtain k v where p: "p = (k, v)" by (cases p)
  from Cons.prems p have k: "k \<notin> fst ` set acc" and d: "distinct (map fst m)"
    and i: "fst ` set (acc @ [(k, v)]) \<inter> fst ` set m = {}"
    by auto
  show ?case
    using Cons.IH [OF d i] by (simp add: p update_new_key [OF k])
qed

lemma read_entry_lines:
  "list_all (\<lambda>(k, v). valid_key k \<and> valid_value v) m \<Longrightarrow>
   foldl set_var vs (map (\<lambda>line. strip_comments (trim line)) (map entry_line m)) = mergeVars vs m"
  unfolding mergeVars_def
proof (induction m arbitrary: vs)
  case Nil
  show ?case by simp
next
  case (Cons p m)
  obtain k v where p: "p = (k, v)" by (cases p)
  from Cons.prems p have kv: "valid_key k" "valid_value v"
    and r: "list_all (\<lambda>(k, v). valid_key k \<and> valid_value v) m"
    by simp_all
  show ?case
    using Cons.IH [OF r] by (simp add: p entry_line_read [OF kv])
qed

lemma closing_lines_skipped:
  "set_var vs (strip_comments (trim [])) = vs" "set_var vs (strip_comments (trim ''}'')) = vs"
  by (simp_all add: trim_def isWhiteSpace_def set_var_def match_decl_def comment_at_def)

lemma entry_lines_no_nl:
  assumes "list_all (\<lambda>(k, v). valid_key k \<and> valid_value v) m"
  shows "\<forall>l \<in> set (map entry_line m). CHR 0x0A \<notin> set l"
proof
  fix l assume "l \<in> set (map entry_line m)"
  then obtain k v where kv: "(k, v) \<in> set m" and l: "l = entry_line (k, v)"
    by auto
  from kv assms have "valid_key k" "valid_value v"
    by (auto simp: list_all_iff)
  then show "CHR 0x0A \<notin> set l"
    unfolding l by (rule entry_line_no_nl)
qed

lemma body_lines:
  assumes "list_all (\<lambda>(k, v). valid_key k \<and> valid_value v) m"
  shows "split_nl (join [CHR 0x0A] (map entry_line m)) = (if m = [] then [[]] else map entry_line m)"
proof (cases "m = []")
  case True
  then show ?thesis by simp
next
  case False
  then have "map entry_line m \<noteq> []" by simp
  then have "split_nl (join [CHR 0x0A] (map entry_line m)) = map entry_line m"
    using entry_lines_no_nl [OF assms] by (rule split_nl_join)
  with False show ?thesis by simp
qed

lemma buildBlock_shape:
  "buildBlock sel m =
     (sel @ '' {'') @ CHR 0x0A # join [CHR 0x0A] (map entry_line m) @ CHR 0x0A # ''}''"
  by (simp add: buildBlock_def entry_line_def)

lemma buildBlock_lines:
  assumes "CHR 0x0A \<notin> set sel" "list_all (\<lambda>(k, v). valid_key k \<and> valid_value v) m"
  shows "split_nl (buildBlock sel m) =
           [sel @ '' {''] @ (if m = [] then [[]] else map entry_line m) @ [''}'']"
proof -
  let ?body = "join [CHR 0x0A] (map entry_line m)"
  have h: "split_nl (sel @ '' {'') = [sel @ '' {'']"
    using assms(1) by (intro split_nl_single) simp
  have c: "split_nl ''}'' = [''}'']"
    by simp
  have "split_nl ((sel @ '' {'') @ CHR 0x0A # ?body @ CHR 0x0A # ''}'') =
        split_nl (sel @ '' {'') @ split_nl (?body @ CHR 0x0A # ''}'')"
    by (rule split_nl_append)
  also have "split_nl (?body @ CHR 0x0A # ''}'') = split_nl ?body @ split_nl ''}''"
    by (rule split_nl_append)
  finally show ?thesis
    by (simp only: buildBlock_shape h body_lines [OF assms(2)] c)
qed

text \<open>
  Claim C2, as the specification states it: extracting from the composed block gives the
  map back for every map with non-empty keys and values and every selector. A value that
  spans two lines is non-empty, and the extractor, which reads one declaration per line,
  finds no entry at all.
\<close>

theorem roundtrip_multiline_counterexample:
  "extractVars (buildBlock '':root'' [(''--a'', ''1\<newline>2'')]) \<noteq> [(''--a'', ''1\<newline>2'')]"
  by code_simp

text \<open>
  Claim C2, amended. For every selector without a line feed and every map with unique keys
  of the form \<^verbatim>\<open>--name\<close> (the name a non-empty run of word characters and hyphens) whose
  values are non-empty, have no white space at either end, hold no line terminator and no
  \<^verbatim>\<open>/* */\<close> comment that the extractor would strip, extracting from the composed block gives
  the map back, entries in the same order.
\<close>

theorem extractVars_buildBlock:
  assumes "valid_vars m" and "CHR 0x0A \<notin> set sel"
  shows "extractVars (buildBlock sel m) = m"
proof -
  from assms(1) have d: "distinct (map fst m)"
    and v: "list_all (\<lambda>(k, v). valid_key k \<and> valid_value v) m"
    by (simp_all add: valid_vars_def)
  let ?f = "\<lambda>line. strip_comments (trim line)"
  have "foldl set_var [] (map ?f (map entry_line m)) = m"
    using read_entry_lines [OF v, of "[]"] mergeVars_fresh [OF d, of "[]"] by simp
  then show ?thesis
    unfolding extractVars_def buildBlock_lines [OF assms(2) v]
    by (simp add: header_line_skipped closing_lines_skipped)
qed

theorem extractVars_buildBlock_witness:
  "valid_vars [(''--radius'', ''0.5rem''), (''--ring'', ''oklch(0.7 0 0 / 50%)'')] \<and>
   CHR 0x0A \<notin> set '':root'' \<and>
   extractVars (buildBlock '':root'' [(''--radius'', ''0.5rem''), (''--ring'', ''oklch(0.7 0 0 / 50%)'')]) =
     [(''--radius'', ''0.5rem''), (''--ring'', ''oklch(0.7 0 0 / 50%)'')]"
proof -
  have v: "valid_vars [(''--radius'', ''0.5rem''), (''--ring'', ''oklch(0.7 0 0 / 50%)'')]"
    by code_simp
  have s: "CHR 0x0A \<notin> set '':root''"
    by simp
  from v s extractVars_buildBlock [OF v s] show ?thesis
    by (intro conjI)
qed

section \<open>Regular expressions against the block extractor\<close>

subsection \<open>The leftmost match\<close>

lemma block_here_Nil: "block_here sel [] = None"
  by (simp add: block_here_def)

lemma regex_block_leftmost:
  "\<forall>j<length pre. block_here sel (drop j (pre @ t)) = None \<Longrightarrow>
   block_here sel t = Some (wh, g) \<Longrightarrow>
   regex_block sel (pre @ t) = Some \<lparr>m_index = length pre, m_whole = wh, m_group1 = g\<rparr>"
proof (induction pre)
  case Nil
  then obtain c cs where "t = c # cs"
    by (cases t) (auto simp: block_here_Nil)
  with Nil show ?case by simp
next
  case (Cons c pre)
  from Cons.prems(1) have h: "block_here sel (c # pre @ t) = None"
    by (metis append_Cons drop0 length_greater_0_conv list.distinct(1))
  have "\<forall>j<length pre. block_here sel (drop j (pre @ t)) = None"
  proof (intro allI impI)
    fix j assume "j < length pre"
    then have "Suc j < length (c # pre)" by simp
    with Cons.prems(1) have "block_here sel (drop (Suc j) ((c # pre) @ t)) = None"
      by blast
    then show "block_here sel (drop j (pre @ t)) = None" by simp
  qed
  from Cons.IH [OF this Cons.prems(2)] h show ?case
    by simp
qed

lemma takeWhile_until: "x \<notin> set body \<Longrightarrow> takeWhile (\<lambda>y. y \<noteq> x) (body @ x # post) = body"
  by (induction body) auto

lemma block_here_flat:
  assumes "list_all isWhiteSpace ws" "CHR ''}'' \<notin> set body"
  shows "block_here sel (sel @ ws @ ''{'' @ body @ ''}'' @ post) =
           Some (sel @ ws @ ''{'' @ body @ ''}'', body)"
proof -
  have w: "\<And>c. c \<in> set ws \<Longrightarrow> isWhiteSpace c"
    using assms(1) by (simp add: list_all_iff)
  have nb: "\<not> isWhiteSpace CHR ''{''"
    by (simp add: isWhiteSpace_def)
  have tw: "takeWhile isWhiteSpace (ws @ CHR ''{'' # body @ CHR ''}'' # post) = ws"
    using w nb by (simp add: takeWhile_append2)
  have dw: "dropWhile isWhiteSpace (ws @ CHR ''{'' # body @ CHR ''}'' # post) =
            CHR ''{'' # body @ CHR ''}'' # post"
    using w nb by (simp add: dropWhile_append2)
  have tb: "takeWhile (\<lambda>x. x \<noteq> CHR ''}'') (body @ CHR ''}'' # post) = body"
    using assms(2) by (rule takeWhile_until)
  show ?thesis
    unfolding block_here_def by (simp add: Let_def tw dw tb)
qed



lemma remove_first_here: "remove_first pat (pat @ post) = post"
proof (cases "pat @ post")
  case Nil
  then show ?thesis by simp
next
  case (Cons a list)
  have "prefix pat (pat @ post)" by simp
  then have "remove_first pat (a # list) = drop (length pat) (a # list)"
    unfolding Cons by simp
  then show ?thesis
    unfolding Cons [symmetric] by simp
qed

lemma remove_first_at:
  "\<forall>j<length pre. \<not> prefix pat (drop j (pre @ pat @ post)) \<Longrightarrow>
   remove_first pat (pre @ pat @ post) = pre @ post"
proof (induction pre)
  case Nil
  show ?case by (simp add: remove_first_here)
next
  case (Cons c pre)
  from Cons.prems have h: "\<not> prefix pat (c # pre @ pat @ post)"
    by (metis append_Cons drop0 length_greater_0_conv list.distinct(1))
  have "\<forall>j<length pre. \<not> prefix pat (drop j (pre @ pat @ post))"
  proof (intro allI impI)
    fix j assume "j < length pre"
    then have "Suc j < length (c # pre)" by simp
    with Cons.prems have "\<not> prefix pat (drop (Suc j) ((c # pre) @ pat @ post))"
      by blast
    then show "\<not> prefix pat (drop j (pre @ pat @ post))" by simp
  qed
  from Cons.IH [OF this] h show ?case by simp
qed

lemma depth_flat: "CHR ''}'' \<notin> set p \<Longrightarrow> 0 < depth p"
  by (simp add: depth_def)

lemma flat_regex:
  assumes f: "first_occurrence sel (pre @ B @ post) (length pre)"
      and B: "B = sel @ ws @ ''{'' @ body @ ''}''"
      and ws: "list_all isWhiteSpace ws"
      and b: "CHR ''}'' \<notin> set body"
  shows "regex_block sel (pre @ B @ post) =
           Some \<lparr>m_index = length pre, m_whole = B, m_group1 = body\<rparr>"
proof -
  have "\<forall>j<length pre. block_here sel (drop j (pre @ B @ post)) = None"
    using f by (simp add: first_occurrence_def block_here_def)
  moreover have "block_here sel (B @ post) = Some (B, body)"
    unfolding B using block_here_flat [OF ws b, of sel post] by simp
  ultimately show ?thesis
    by (rule regex_block_leftmost)
qed

lemma flat_extract:
  assumes f: "first_occurrence sel (pre @ B @ post) (length pre)"
      and B: "B = sel @ ws @ ''{'' @ body @ ''}''"
      and ws: "list_all isWhiteSpace ws"
      and s: "CHR ''{'' \<notin> set sel"
      and b: "CHR ''{'' \<notin> set body" "CHR ''}'' \<notin> set body"
  shows "extractBlock (pre @ B @ post) sel = B"
proof -
  have "\<not> isWhiteSpace CHR ''{''"
    by (simp add: isWhiteSpace_def)
  with ws have "CHR ''{'' \<notin> set ws"
    by (auto simp: list_all_iff)
  with s have a: "CHR ''{'' \<notin> set (sel @ ws)" by simp
  have d: "drop (length pre) (pre @ B @ post) = (sel @ ws) @ ''{'' @ body @ ''}'' @ post"
    unfolding B by simp
  have p: "\<forall>p. prefix p body \<longrightarrow> 0 < depth p"
  proof (intro allI impI)
    fix p assume "prefix p body"
    then have "set p \<subseteq> set body"
      by (rule set_mono_prefix)
    with b(2) have "CHR ''}'' \<notin> set p" by blast
    then show "0 < depth p" by (rule depth_flat)
  qed
  have db: "depth body = 1"
    using b by (simp add: depth_def)
  have "extractBlock (pre @ B @ post) sel = (sel @ ws) @ ''{'' @ body @ ''}''"
    using f d a p db by (rule extractBlock_closed)
  then show ?thesis
    unfolding B by simp
qed

lemma flat_remove_first:
  assumes f: "first_occurrence sel (pre @ B @ post) (length pre)"
      and B: "prefix sel B"
  shows "remove_first B (pre @ B @ post) = pre @ post"
proof -
  have "\<forall>j<length pre. \<not> prefix B (drop j (pre @ B @ post))"
  proof (intro allI impI notI)
    fix j assume j: "j < length pre" and pB: "prefix B (drop j (pre @ B @ post))"
    from B pB have "prefix sel (drop j (pre @ B @ post))"
      by (rule prefix_order.trans)
    with f j show False
      unfolding first_occurrence_def by blast
  qed
  then show ?thesis
    by (rule remove_first_at)
qed

text \<open>
  Claim C8 says that the \<^verbatim>\<open>:root\<close> and \<^verbatim>\<open>.dark\<close> sections which the assembler reads and
  strips are the blocks that the block extractor locates, nested braces included. The
  assembler finds them with \<^verbatim>\<open>ROOT_REGEX\<close> and \<^verbatim>\<open>DARK_REGEX\<close>, whose lazy group stops at
  the first \<^verbatim>\<open>}\<close>. For the stylesheet below, whose \<^verbatim>\<open>:root\<close> block holds a nested rule,
  the section ends inside the block while the extractor returns the whole block; the
  user's \<^verbatim>\<open>--c\<close> behind the nested rule is not read, so the template's value wins, and
  the tail of the block with its unmatched \<^verbatim>\<open>}\<close> stays in the leftover content.
\<close>

theorem nested_root_block_truncated:
  "regex_section ROOT_REGEX '':root {\<newline>  --a: 1;\<newline>  .x {\<newline>    --b: 2;\<newline>  }\<newline>  --c: 3;\<newline>}\<newline>body {}'' =
     '':root {\<newline>  --a: 1;\<newline>  .x {\<newline>    --b: 2;\<newline>  }'' \<and>
   extractBlock '':root {\<newline>  --a: 1;\<newline>  .x {\<newline>    --b: 2;\<newline>  }\<newline>  --c: 3;\<newline>}\<newline>body {}'' '':root'' =
     '':root {\<newline>  --a: 1;\<newline>  .x {\<newline>    --b: 2;\<newline>  }\<newline>  --c: 3;\<newline>}'' \<and>
   mergeVars (coreRootVars '':root {\<newline>  --a: 0;\<newline>  --c: 0;\<newline>}'')
     (userRootVars '':root {\<newline>  --a: 1;\<newline>  .x {\<newline>    --b: 2;\<newline>  }\<newline>  --c: 3;\<newline>}\<newline>body {}'') =
     [(''--a'', ''1''), (''--c'', ''0''), (''--b'', ''2'')] \<and>
   stripSections '':root {\<newline>  --a: 1;\<newline>  .x {\<newline>    --b: 2;\<newline>  }\<newline>  --c: 3;\<newline>}\<newline>body {}'' =
     ''--c: 3;\<newline>}\<newline>body {}''"
  by code_simp

text \<open>
  On a flat block the two agree: when the first occurrence of the selector is followed by
  white space (possibly none) and \<^verbatim>\<open>{\<close>, and the text up to the next \<^verbatim>\<open>}\<close> holds no
  further \<^verbatim>\<open>{\<close>, the match of the regular expression is the block that the block
  extractor returns, and removing either leaves the same text.
\<close>

lemma flat_block_agreement:
  assumes f: "first_occurrence sel w (length pre)"
      and w: "w = pre @ sel @ ws @ ''{'' @ body @ ''}'' @ post"
      and ws: "list_all isWhiteSpace ws"
      and s: "CHR ''{'' \<notin> set sel"
      and b: "CHR ''{'' \<notin> set body" "CHR ''}'' \<notin> set body"
  shows "regex_block sel w =
           Some \<lparr>m_index = length pre, m_whole = sel @ ws @ ''{'' @ body @ ''}'', m_group1 = body\<rparr> \<and>
         extractBlock w sel = sel @ ws @ ''{'' @ body @ ''}'' \<and>
         regex_remove (regex_block sel) w = pre @ post \<and>
         remove_first (extractBlock w sel) w = pre @ post"
proof -
  define B where "B = sel @ ws @ ''{'' @ body @ ''}''"
  have w': "w = pre @ B @ post"
    unfolding B_def w by simp
  note f' = f [unfolded w']
  have r: "regex_block sel (pre @ B @ post) =
             Some \<lparr>m_index = length pre, m_whole = B, m_group1 = body\<rparr>"
    using f' B_def ws b(2) by (rule flat_regex)
  have e: "extractBlock (pre @ B @ post) sel = B"
    using f' B_def ws s b by (rule flat_extract)
  have "prefix sel B"
    unfolding B_def by simp
  with f' have rf: "remove_first B (pre @ B @ post) = pre @ post"
    by (rule flat_remove_first)
  have rr: "regex_remove (regex_block sel) (pre @ B @ post) = pre @ post"
    by (simp add: regex_remove_def r)
  show ?thesis
    unfolding w' e unfolding r rf rr by (simp add: B_def)
qed

subsection \<open>What a strip step leaves in place\<close>















subsection \<open>Later blocks\<close>

















section \<open>Running the merge twice\<close>

subsection \<open>The shape of the written text\<close>

lemma set_join: "p \<in> set parts \<Longrightarrow> set p \<subseteq> set (join sep parts)"
  by (induction sep parts rule: join.induct) auto

lemma clyroBlock_ink: "CHR '':'' \<in> set (clyroBlock template working)"
proof -
  let ?r = "buildBlock '':root'' (mergeVars (coreRootVars template) (userRootVars working))"
  let ?parts = "[getCoreSection template ''@theme inline'', [], ?r, [],
     buildBlock ''.dark'' (mergeVars (coreDarkVars template) (userDarkVars working)), [],
     getCoreSection template ''@layer base'']"
  have r: "CHR '':'' \<in> set ?r"
    by (simp add: buildBlock_def)
  then have "?r \<in> set (filter (\<lambda>p. p \<noteq> []) ?parts)"
    by auto
  then have "set ?r \<subseteq> set (join [CHR 0x0A, CHR 0x0A] (filter (\<lambda>p. p \<noteq> []) ?parts))"
    by (rule set_join)
  with r show ?thesis
    unfolding clyroBlock_def join_sections_def by blast
qed

lemma trim_head_kept:
  assumes "A \<noteq> []" "\<not> isWhiteSpace (hd A)" "c \<in> set M" "\<not> isWhiteSpace c"
  shows "\<exists>M'. trim (A @ M) = A @ M'"
proof -
  have 1: "dropWhile isWhiteSpace (A @ M) = A @ M"
    using assms(1,2) by (cases A) simp_all
  have "c \<in> set (rev M)"
    using assms(3) by simp
  then have 2: "dropWhile isWhiteSpace (rev M @ rev A) = dropWhile isWhiteSpace (rev M) @ rev A"
    using assms(4) by (rule dropWhile_append1)
  have "trim (A @ M) = A @ rev (dropWhile isWhiteSpace (rev M))"
    by (simp add: trim_def 1 2)
  then show ?thesis by blast
qed

text \<open>Every entry of the import list is a non-empty line that starts with \<^verbatim>\<open>@\<close>.\<close>

lemma trim_no_nl: "CHR 0x0A \<notin> set l \<Longrightarrow> CHR 0x0A \<notin> set (trim l)"
  unfolding trim_def by (metis set_dropWhileD set_rev)

lemma split_nl_no_nl: "l \<in> set (split_nl s) \<Longrightarrow> CHR 0x0A \<notin> set l"
proof (induction s arbitrary: l)
  case Nil
  then show ?case by simp
next
  case (Cons c cs)
  obtain l0 ls where s: "split_nl cs = l0 # ls"
    using split_nl_not_Nil [of cs] by (cases "split_nl cs") auto
  with Cons show ?case
    by (auto split: if_splits)
qed

lemma importLines_entries:
  assumes "e \<in> set (importLines css)"
  shows "e \<noteq> [] \<and> hd e = CHR ''@'' \<and> CHR 0x0A \<notin> set e"
proof -
  let ?U = "map trim (filter (\<lambda>line. prefix ''@import'' (trim line)) (split_nl css))"
  have u: "e' \<noteq> [] \<and> hd e' = CHR ''@'' \<and> CHR 0x0A \<notin> set e'" if "e' \<in> set ?U" for e'
  proof -
    from that obtain l where l: "l \<in> set (split_nl css)" "prefix ''@import'' (trim l)" "e' = trim l"
      by auto
    from l(2) have "trim l \<noteq> []" "hd (trim l) = CHR ''@''"
      by (auto simp: prefix_def)
    moreover from l(1) have "CHR 0x0A \<notin> set (trim l)"
      by (intro trim_no_nl split_nl_no_nl)
    ultimately show ?thesis
      using l(3) by simp
  qed
  have "set (importLines css) \<subseteq> set ?U \<union> set REQUIRED_IMPORTS"
    unfolding importLines_def REQUIRED_IMPORTS_def by auto
  with assms have "e \<in> set ?U \<or> e \<in> set REQUIRED_IMPORTS"
    by blast
  then show ?thesis
  proof
    assume "e \<in> set ?U"
    then show ?thesis by (rule u)
  next
    assume "e \<in> set REQUIRED_IMPORTS"
    then show ?thesis
      unfolding REQUIRED_IMPORTS_def by auto
  qed
qed


lemma add_missing_not_Nil:
  "foldl (\<lambda>ls req. if req \<in> set ls then ls else ls @ [req]) ls (r # rs) \<noteq> []"
proof -
  have grow: "ls \<noteq> [] \<Longrightarrow>
      foldl (\<lambda>ls req. if req \<in> set ls then ls else ls @ [req]) ls rs \<noteq> []" for ls rs
    by (induction rs arbitrary: ls) auto
  have "(if r \<in> set ls then ls else ls @ [r]) \<noteq> []"
    by auto
  then have "foldl (\<lambda>ls req. if req \<in> set ls then ls else ls @ [req])
      (if r \<in> set ls then ls else ls @ [r]) rs \<noteq> []"
    by (rule grow)
  then show ?thesis
    unfolding foldl_Cons .
qed

lemma importLines_not_Nil: "importLines css \<noteq> []"
  unfolding importLines_def REQUIRED_IMPORTS_def by (rule add_missing_not_Nil)

lemma join_lines_head:
  assumes "ls \<noteq> []" "\<forall>e \<in> set ls. e \<noteq> [] \<and> hd e = CHR ''@''"
  shows "join [CHR 0x0A] ls \<noteq> [] \<and> hd (join [CHR 0x0A] ls) = CHR ''@''"
proof (cases ls)
  case Nil
  with assms(1) show ?thesis by simp
next
  case (Cons e es)
  with assms(2) have "e \<noteq> []" "hd e = CHR ''@''" by simp_all
  then show ?thesis
    unfolding Cons by (cases es) simp_all
qed

lemma written_lines:
  "\<exists>rest. split_nl (finalCss template css) = importLines css @ [] # rest"
proof -
  let ?IL = "importLines css"
  let ?I = "join [CHR 0x0A] ?IL"
  let ?K = "clyroBlock template (workingContent css)"
  let ?L = "stripSections (workingContent css)"
  have e: "\<forall>e \<in> set ?IL. e \<noteq> [] \<and> hd e = CHR ''@''"
    using importLines_entries by blast
  have I: "?I \<noteq> []" "hd ?I = CHR ''@''"
    using join_lines_head [OF importLines_not_Nil e] by simp_all
  have K: "CHR '':'' \<in> set ?K"
    by (rule clyroBlock_ink)
  then have Kn: "?K \<noteq> []" by auto
  obtain M where J: "join_sections [?I, [], ?K, [], ?L] = (?I @ [CHR 0x0A, CHR 0x0A]) @ M"
    and M: "CHR '':'' \<in> set M"
    using I(1) Kn K by (cases "?L = []") (simp_all add: join_sections_def)
  have "\<exists>M'. trim ((?I @ [CHR 0x0A, CHR 0x0A]) @ M) = (?I @ [CHR 0x0A, CHR 0x0A]) @ M'"
    using I M by (intro trim_head_kept [of _ "CHR '':''"]) (simp_all add: isWhiteSpace_def)
  then obtain M' where "finalCss template css = ?I @ CHR 0x0A # (CHR 0x0A # M' @ [CHR 0x0A])"
    unfolding finalCss_def Let_def J by auto
  then have "split_nl (finalCss template css) =
             split_nl ?I @ split_nl (CHR 0x0A # M' @ [CHR 0x0A])"
    by (simp only: split_nl_append)
  moreover have "split_nl ?I = ?IL"
    using importLines_not_Nil importLines_entries by (intro split_nl_join) blast+
  ultimately show ?thesis by simp
qed


lemma add_missing_prefix:
  "prefix ls (foldl (\<lambda>ls req. if req \<in> set ls then ls else ls @ [req]) ls rs)"
proof (induction rs arbitrary: ls)
  case Nil
  show ?case by simp
next
  case (Cons r rs)
  have "prefix ls (if r \<in> set ls then ls else ls @ [r])"
    by simp
  also have "prefix \<dots> (foldl (\<lambda>ls req. if req \<in> set ls then ls else ls @ [req])
      (if r \<in> set ls then ls else ls @ [r]) rs)"
    by (rule Cons.IH)
  finally show ?case by simp
qed

lemma importLines_length:
  "length (filter (\<lambda>line. prefix ''@import'' (trim line)) (split_nl css)) \<le>
   length (importLines css)"
proof -
  have "prefix (map trim (filter (\<lambda>line. prefix ''@import'' (trim line)) (split_nl css)))
          (importLines css)"
    unfolding importLines_def by (rule add_missing_prefix)
  then show ?thesis
    by (metis length_map prefix_length_le)
qed

text \<open>
  Claim C1 says that merging the output of a merge again gives the same bytes. An import
  line with a trailing comment is captured into the import list but not matched by
  \<^verbatim>\<open>IMPORT_REGEX\<close> (the line does not end in \<^verbatim>\<open>;\<close>), so it also stays in the leftover
  content. The first output starts with three import lines and an empty line and holds the
  captured line a second time at its end; the second run captures both copies, so the
  fourth line of the second output is an import line. This holds for every template.
\<close>

theorem merge_twice_differs:
  \<open>finalCss template (finalCss template ''@import "a.css"; /* x */'') \<noteq>
   finalCss template ''@import "a.css"; /* x */''\<close>
proof
  let ?X = \<open>''@import "a.css"; /* x */''\<close>
  let ?out1 = "finalCss template ?X"
  let ?out2 = "finalCss template ?out1"
  let ?K = "clyroBlock template (workingContent ?X)"
  let ?P = "\<lambda>line. prefix ''@import'' (trim line)"
  assume same: "?out2 = ?out1"
  have il: \<open>importLines ?X = [?X, ''@import "tailwindcss";'', ''@import "tw-animate-css";'']\<close>
    by code_simp
  have left: "stripSections (workingContent ?X) = ?X"
    by code_simp
  have Kn: "?K \<noteq> []"
    using clyroBlock_ink [of template "workingContent ?X"] by auto
  text \<open>The first output ends with the import line, which is still in the leftover content.\<close>
  let ?A = \<open>''@import "a.css"; /* x */\<newline>@import "tailwindcss";\<newline>@import "tw-animate-css";\<newline>\<newline>'' @ ?K @ [CHR 0x0A]\<close>
  have "join_sections [join [CHR 0x0A] (importLines ?X), [], ?K, [], ?X] = ?A @ CHR 0x0A # ?X"
    using Kn by (simp add: il join_sections_def)
  moreover have "trim (?A @ CHR 0x0A # ?X) = ?A @ CHR 0x0A # ?X"
    by (intro trim_id) (simp_all add: isWhiteSpace_def)
  ultimately have out1: "?out1 = ?A @ CHR 0x0A # (?X @ CHR 0x0A # [])"
    by (simp add: finalCss_def Let_def left)
  have "split_nl ?out1 = split_nl ?A @ split_nl (?X @ CHR 0x0A # [])"
    unfolding out1 by (rule split_nl_append)
  also have "split_nl (?X @ CHR 0x0A # []) = [?X, []]"
    by (simp add: split_nl_append)
  finally have tail: "split_nl ?out1 = split_nl ?A @ [?X, []]" .
  text \<open>Its lines start with the three import lines and an empty line.\<close>
  obtain rest1 where lines1: "split_nl ?out1 = importLines ?X @ [] # rest1"
    using written_lines by blast
  then have fourth1: "split_nl ?out1 ! 3 = []"
    by (simp add: il)
  text \<open>So the first output has at least four import lines.\<close>
  from lines1 tail have "split_nl ?A @ [?X, []] = importLines ?X @ [] # rest1"
    by simp
  then obtain mid where "split_nl ?A = importLines ?X @ mid"
    by (simp add: il append_eq_append_conv2 append_eq_Cons_conv Cons_eq_append_conv)
  with tail have "split_nl ?out1 = importLines ?X @ mid @ [?X, []]"
    by simp
  then have "length (filter ?P (split_nl ?out1)) \<ge> length (filter ?P (importLines ?X)) + length (filter ?P [?X])"
    by simp
  moreover have "length (filter ?P (importLines ?X)) = 3" "length (filter ?P [?X]) = 1"
    unfolding il by code_simp+
  ultimately have "4 \<le> length (filter ?P (split_nl ?out1))"
    by simp
  then have four: "4 \<le> length (importLines ?out1)"
    using importLines_length [of ?out1] by simp
  text \<open>The fourth line of the second output is one of them, and it is not empty.\<close>
  obtain rest2 where "split_nl ?out2 = importLines ?out1 @ [] # rest2"
    using written_lines by blast
  with four have "split_nl ?out2 ! 3 = importLines ?out1 ! 3"
    by (simp add: nth_append)
  moreover from four have "importLines ?out1 ! 3 \<in> set (importLines ?out1)"
    by simp
  then have "importLines ?out1 ! 3 \<noteq> []"
    using importLines_entries by blast
  ultimately show False
    using same fourth1 by simp
qed

end
